theory Spec2Isabelle
  imports Main "HOL-Library.Word" "HOL-Library.Log_Nat"
begin

section \<open>The program\<close>

text \<open>
  The repository is one C++ file, \<^verbatim>\<open>src/fibonacci.cpp\<close>, whose \<^verbatim>\<open>main\<close> runs two
  loops: a \<^verbatim>\<open>while\<close> loop that collects the Fibonacci numbers up to \<^verbatim>\<open>limit\<close> in a
  \<^verbatim>\<open>std::vector<int>\<close>, and a \<^verbatim>\<open>for\<close> loop that prints the last \<^verbatim>\<open>desiredCount\<close> of them,
  latest first. The specification calls the first loop \<^verbatim>\<open>generate(limit)\<close> and the second
  \<^verbatim>\<open>formatLastN(sequence, n)\<close>; the two constants of the source (\<^verbatim>\<open>limit = 1000\<close>,
  \<^verbatim>\<open>desiredCount = 15\<close>) are parameters of the two loops here and are fixed again in
  \<open>main\<close>.
\<close>

subsection \<open>Machine integers and the vector\<close>

text \<open>
  \<^verbatim>\<open>int\<close> is a 32-bit signed integer. Signed overflow is undefined behaviour in C++, so an
  addition that leaves the range is the error \<open>Signed_Overflow\<close>, not a wrapped value.
  \<^verbatim>\<open>std::size_t\<close> is a 64-bit unsigned integer whose arithmetic wraps around.
\<close>

datatype error = Signed_Overflow | Out_Of_Bounds

definition INT_MAX :: int where
  "INT_MAX = 2147483647"

definition INT_MIN :: int where
  "INT_MIN = - 2147483648"

definition add_int :: "int \<Rightarrow> int \<Rightarrow> error + int" where
  "add_int a b =
     (if INT_MIN \<le> a + b \<and> a + b \<le> INT_MAX then Inr (a + b) else Inl Signed_Overflow)"

type_synonym size_t = "64 word"

text \<open>
  A \<^verbatim>\<open>std::vector<int>\<close> is the list of its elements. \<^verbatim>\<open>back()\<close> on an empty
  vector and \<^verbatim>\<open>operator[]\<close> beyond the size are undefined behaviour: the error
  \<open>Out_Of_Bounds\<close>.
\<close>

definition empty_vec :: "int list \<Rightarrow> bool" where
  "empty_vec v = (v = [])"

definition back_vec :: "int list \<Rightarrow> error + int" where
  "back_vec v = (if v = [] then Inl Out_Of_Bounds else Inr (last v))"

definition push_back :: "int list \<Rightarrow> int \<Rightarrow> int list" where
  "push_back v x = v @ [x]"

definition size_vec :: "int list \<Rightarrow> size_t" where
  "size_vec v = of_nat (length v)"

definition subscript :: "int list \<Rightarrow> size_t \<Rightarrow> error + int" where
  "subscript v i = (if unat i < length v then Inr (v ! unat i) else Inl Out_Of_Bounds)"

subsection \<open>The generation loop (lines 9 to 20)\<close>

record gen_state =
  previous :: int
  current :: int
  fibonacci :: "int list"

definition init_state :: gen_state where
  "init_state = \<lparr>previous = 0, current = 1, fibonacci = []\<rparr>"

text \<open>
  The guard \<^verbatim>\<open>fibonacci.empty() || fibonacci.back() != current\<close>: the right operand is
  evaluated only when the left one is false.
\<close>

definition push_guard :: "gen_state \<Rightarrow> error + bool" where
  "push_guard s =
     (if empty_vec (fibonacci s) then Inr True
      else case back_vec (fibonacci s) of
             Inl e \<Rightarrow> Inl e
           | Inr b \<Rightarrow> Inr (b \<noteq> current s))"

text \<open>One execution of the loop body (lines 13 to 19).\<close>

definition loop_body :: "gen_state \<Rightarrow> error + gen_state" where
  "loop_body s =
     (case push_guard s of
        Inl e \<Rightarrow> Inl e
      | Inr g \<Rightarrow>
          (let v = (if g then push_back (fibonacci s) (current s) else fibonacci s) in
           (case add_int (previous s) (current s) of
              Inl e \<Rightarrow> Inl e
            | Inr next \<Rightarrow> Inr \<lparr>previous = current s, current = next, fibonacci = v\<rparr>)))"

text \<open>
  The loop \<^verbatim>\<open>while (current <= limit) { ... }\<close>. From an arbitrary state it need not
  return (from \<open>previous = 0\<close>, \<open>current = 0\<close> it runs forever), so it is a partial
  function: \<open>None\<close> is the run that never leaves the loop.
\<close>

partial_function (option) generate_loop :: "int \<Rightarrow> gen_state \<Rightarrow> (error + gen_state) option" where
  "generate_loop limit s =
     (if current s \<le> limit
      then (case loop_body s of
              Inl e \<Rightarrow> Some (Inl e)
            | Inr s' \<Rightarrow> generate_loop limit s')
      else Some (Inr s))"

declare generate_loop.simps [code]

definition generate :: "int \<Rightarrow> (error + int list) option" where
  "generate limit =
     (case generate_loop limit init_state of
        None \<Rightarrow> None
      | Some (Inl e) \<Rightarrow> Some (Inl e)
      | Some (Inr s) \<Rightarrow> Some (Inr (fibonacci s)))"

text \<open>
  The state after \<open>n\<close> executions of the loop body, whatever the loop condition says: the
  states the loop visits are \<open>iterate_body 0 s\<close>, \<open>iterate_body 1 s\<close>, ... as long as the
  condition holds at them.
\<close>

fun iterate_body :: "nat \<Rightarrow> gen_state \<Rightarrow> error + gen_state" where
  "iterate_body 0 s = Inr s"
| "iterate_body (Suc n) s =
     (case loop_body s of
        Inl e \<Rightarrow> Inl e
      | Inr s' \<Rightarrow> iterate_body n s')"

subsection \<open>The generation loop where \<^verbatim>\<open>int\<close> wraps around\<close>

text \<open>
  The C++ standard leaves the overflow of \<^verbatim>\<open>previous + current\<close> undefined. A build for a
  two's-complement machine that does not trap keeps the low 32 bits of the sum: the same
  loop, with \<open>wrap_int\<close> in place of the range check. These definitions are used only to
  show what such a build stores once the addition has overflowed.
\<close>

definition wrap_int :: "int \<Rightarrow> int" where
  "wrap_int x = (x + 2147483648) mod 4294967296 - 2147483648"

definition loop_body_wrap :: "gen_state \<Rightarrow> error + gen_state" where
  "loop_body_wrap s =
     (case push_guard s of
        Inl e \<Rightarrow> Inl e
      | Inr g \<Rightarrow>
          (let v = (if g then push_back (fibonacci s) (current s) else fibonacci s);
               next = wrap_int (previous s + current s)
           in Inr \<lparr>previous = current s, current = next, fibonacci = v\<rparr>))"

partial_function (option) generate_loop_wrap ::
    "int \<Rightarrow> gen_state \<Rightarrow> (error + gen_state) option" where
  "generate_loop_wrap limit s =
     (if current s \<le> limit
      then (case loop_body_wrap s of
              Inl e \<Rightarrow> Some (Inl e)
            | Inr s' \<Rightarrow> generate_loop_wrap limit s')
      else Some (Inr s))"

declare generate_loop_wrap.simps [code]

definition generate_wrap :: "int \<Rightarrow> (error + int list) option" where
  "generate_wrap limit =
     (case generate_loop_wrap limit init_state of
        None \<Rightarrow> None
      | Some (Inl e) \<Rightarrow> Some (Inl e)
      | Some (Inr s) \<Rightarrow> Some (Inr (fibonacci s)))"

subsection \<open>The output stream\<close>

text \<open>
  What the program writes to \<^verbatim>\<open>std::cout\<close> is the list of the items inserted with
  \<^verbatim>\<open><<\<close>, in order; \<open>render\<close> gives the characters they produce. An \<^verbatim>\<open>int\<close> is
  written in decimal, with a minus sign when negative.
\<close>

datatype out_item = Out_Int int | Out_Str string | Endl

definition digit_char :: "nat \<Rightarrow> char" where
  "digit_char d = ''0123456789'' ! d"

function show_nat :: "nat \<Rightarrow> string" where
  "show_nat n = (if n < 10 then [digit_char n] else show_nat (n div 10) @ [digit_char (n mod 10)])"
  by pat_completeness auto
termination
  by (relation "measure id") auto

declare show_nat.simps [simp del]

definition show_int :: "int \<Rightarrow> string" where
  "show_int i = (if i < 0 then CHR ''-'' # show_nat (nat (- i)) else show_nat (nat i))"

fun render_item :: "out_item \<Rightarrow> string" where
  "render_item (Out_Int i) = show_int i"
| "render_item (Out_Str s) = s"
| "render_item Endl = [CHR 0x0A]"

definition render :: "out_item list \<Rightarrow> string" where
  "render out = concat (map render_item out)"

fun ints_of :: "out_item list \<Rightarrow> int list" where
  "ints_of [] = []"
| "ints_of (Out_Int i # out) = i # ints_of out"
| "ints_of (_ # out) = ints_of out"

subsection \<open>The print loop (lines 22 to 31) and the program\<close>

text \<open>
  \<^verbatim>\<open>for (std::size_t i = 0; i < count; ++i) { ... }\<close>, with the output written so far as
  \<open>out\<close>.
\<close>

function print_loop :: "int list \<Rightarrow> size_t \<Rightarrow> size_t \<Rightarrow> out_item list \<Rightarrow> error + out_item list" where
  "print_loop v count i out =
     (if i < count
      then (let index = size_vec v - 1 - i in
            case subscript v index of
              Inl e \<Rightarrow> Inl e
            | Inr x \<Rightarrow>
                let out1 = out @ [Out_Int x];
                    out2 = (if i + 1 < count then out1 @ [Out_Str '' ''] else out1)
                in print_loop v count (i + 1) out2)
      else Inr out)"
  by pat_completeness auto
termination
proof (relation "measure (\<lambda>(v, count, i, out). unat count - unat i)")
  show "wf (measure (\<lambda>(v, count, i, out). unat count - unat i))"
    by simp
next
  fix v :: "int list" and count i :: size_t and out out' :: "out_item list"
  assume "i < count"
  then have "unat count - unat (i + 1) < unat count - unat i"
    by unat_arith
  then show "((v, count, i + 1, out'), (v, count, i, out))
      \<in> measure (\<lambda>(v, count, i, out). unat count - unat i)"
    by simp
qed

declare print_loop.simps [simp del]

definition formatLastN :: "int list \<Rightarrow> size_t \<Rightarrow> error + out_item list" where
  "formatLastN v desiredCount =
     (let count = min desiredCount (size_vec v) in print_loop v count 0 [])"

text \<open>
  \<open>main\<close> (lines 5 to 35): the generation loop with \<^verbatim>\<open>limit = 1000\<close>, the print loop with
  \<^verbatim>\<open>desiredCount = 15\<close>, then \<^verbatim>\<open>std::cout << std::endl\<close> and \<^verbatim>\<open>return 0\<close>. The result is
  the output and the exit status; \<open>None\<close> if the program never ends, an error if it runs
  into undefined behaviour.
\<close>

definition main :: "(error + out_item list \<times> int) option" where
  "main =
     (case generate 1000 of
        None \<Rightarrow> None
      | Some (Inl e) \<Rightarrow> Some (Inl e)
      | Some (Inr v) \<Rightarrow>
          (case formatLastN v 15 of
             Inl e \<Rightarrow> Some (Inl e)
           | Inr out \<Rightarrow> Some (Inr (out @ [Endl], 0))))"

section \<open>Facts about the generation loop\<close>

text \<open>The loop body in one equation: it fails only where the addition overflows.\<close>

lemma loop_body_eq:
  "loop_body s =
     (if INT_MIN \<le> previous s + current s \<and> previous s + current s \<le> INT_MAX
      then Inr \<lparr>previous = current s, current = previous s + current s,
                fibonacci = (if fibonacci s = [] \<or> last (fibonacci s) \<noteq> current s
                             then fibonacci s @ [current s] else fibonacci s)\<rparr>
      else Inl Signed_Overflow)"
  by (simp add: loop_body_def push_guard_def empty_vec_def back_vec_def push_back_def add_int_def)

text \<open>
  The invariant rule of the loop: what holds at the start and is kept by every execution
  of the body under the loop condition holds at the exit, where the condition is false.
  The only error a run can end in is the overflow of the addition.
\<close>

lemma generate_loop_result:
  assumes "generate_loop limit s = Some r"
    and "I s"
    and "\<And>u u'. I u \<Longrightarrow> current u \<le> limit \<Longrightarrow> loop_body u = Inr u' \<Longrightarrow> I u'"
  shows "case r of Inl e \<Rightarrow> e = Signed_Overflow | Inr t \<Rightarrow> I t \<and> limit < current t"
  using assms
proof (induction limit s r rule: generate_loop.raw_induct [rotated 1, consumes 1])
  case (1 f l u r)
  show ?case
  proof (cases "current u \<le> l")
    case False
    with 1(2,3) show ?thesis by auto
  next
    case True
    show ?thesis
    proof (cases "loop_body u")
      case (Inl e)
      with True 1(2) have "r = Inl e" by simp
      moreover from Inl have "e = Signed_Overflow"
        by (simp add: loop_body_eq split: if_splits)
      ultimately show ?thesis by simp
    next
      case (Inr u')
      with True 1(2) have f: "f l u' = Some r" by simp
      from 1(4) [OF 1(3) True Inr] have "I u'" .
      from 1(1) [OF f this 1(4)] show ?thesis by simp
    qed
  qed
qed

lemma generate_loop_invariant:
  assumes "generate_loop limit s = Some (Inr t)"
    and "I s"
    and "\<And>u u'. I u \<Longrightarrow> current u \<le> limit \<Longrightarrow> loop_body u = Inr u' \<Longrightarrow> I u'"
  shows "I t \<and> limit < current t"
  using generate_loop_result [of limit s "Inr t" I] assms by simp

lemma generate_Inr:
  "generate limit = Some (Inr xs) \<Longrightarrow>
   \<exists>t. generate_loop limit init_state = Some (Inr t) \<and> fibonacci t = xs"
  by (auto simp: generate_def split: option.splits sum.splits)

text \<open>
  Unrolling: when the loop condition holds at the states after \<open>0, ..., k - 1\<close> executions
  of the body, the loop from \<open>s\<close> continues as the loop from the state after \<open>k\<close>
  executions; when the condition fails there, the loop has run exactly \<open>k\<close> iterations.
\<close>

lemma iterate_body_Suc_Inr:
  "iterate_body (Suc k) s = Inr t \<Longrightarrow> \<exists>s'. loop_body s = Inr s' \<and> iterate_body k s' = Inr t"
  by (simp split: sum.splits)

lemma generate_loop_unroll:
  "iterate_body k s = Inr t \<Longrightarrow>
   (\<forall>j<k. \<exists>u. iterate_body j s = Inr u \<and> current u \<le> limit) \<Longrightarrow>
   generate_loop limit s = generate_loop limit t"
proof (induction k arbitrary: s)
  case 0
  then show ?case by simp
next
  case (Suc k)
  obtain s' where b: "loop_body s = Inr s'" and it: "iterate_body k s' = Inr t"
    using iterate_body_Suc_Inr [OF Suc.prems(1)] by blast
  from Suc.prems(2) have "current s \<le> limit"
    by fastforce
  with b have unf: "generate_loop limit s = generate_loop limit s'"
    by (subst generate_loop.simps) simp
  have "\<forall>j<k. \<exists>u. iterate_body j s' = Inr u \<and> current u \<le> limit"
  proof (intro allI impI)
    fix j assume "j < k"
    with Suc.prems(2) obtain u where "iterate_body (Suc j) s = Inr u" "current u \<le> limit"
      by (meson Suc_less_eq)
    with b show "\<exists>u. iterate_body j s' = Inr u \<and> current u \<le> limit"
      by simp
  qed
  from Suc.IH [OF it this] unf show ?case by simp
qed

lemma generate_loop_exits:
  assumes "iterate_body k s = Inr t" and "limit < current t"
    and "\<forall>j<k. \<exists>u. iterate_body j s = Inr u \<and> current u \<le> limit"
  shows "generate_loop limit s = Some (Inr t)"
proof -
  have "generate_loop limit s = generate_loop limit t"
    using assms(1,3) by (rule generate_loop_unroll)
  also have "\<dots> = Some (Inr t)"
    using assms(2) by (subst generate_loop.simps) simp
  finally show ?thesis .
qed

lemma iterate_body_add:
  "iterate_body (j + m) s =
     (case iterate_body j s of Inl e \<Rightarrow> Inl e | Inr u \<Rightarrow> iterate_body m u)"
  by (induction j arbitrary: s) (simp_all split: sum.splits)

lemma iterate_body_snoc:
  "iterate_body (Suc j) s = (case iterate_body j s of Inl e \<Rightarrow> Inl e | Inr u \<Rightarrow> loop_body u)"
  using iterate_body_add [of j 1 s] by (simp split: sum.splits)

text \<open>The run of the program itself, and the 45 iterations that fit a 32-bit \<^verbatim>\<open>int\<close>.\<close>

lemma generate_1000:
  "generate 1000 = Some (Inr [1, 2, 3, 5, 8, 13, 21, 34, 55, 89, 144, 233, 377, 610, 987])"
  by code_simp

lemma iterate_body_45:
  "iterate_body 45 init_state =
     Inr \<lparr>previous = 1134903170, current = 1836311903,
          fibonacci =
            [1, 2, 3, 5, 8, 13, 21, 34, 55, 89, 144, 233, 377, 610, 987, 1597,
             2584, 4181, 6765, 10946, 17711, 28657, 46368, 75025, 121393,
             196418, 317811, 514229, 832040, 1346269, 2178309, 3524578,
             5702887, 9227465, 14930352, 24157817, 39088169, 63245986,
             102334155, 165580141, 267914296, 433494437, 701408733,
             1134903170]\<rparr>"
  by code_simp

lemma iterate_body_prefix:
  assumes "j \<le> 45"
  shows "\<exists>u. iterate_body j init_state = Inr u"
proof -
  from assms have "45 = j + (45 - j)" by simp
  then have "iterate_body 45 init_state = iterate_body (j + (45 - j)) init_state"
    by simp
  with iterate_body_45 iterate_body_add [of j "45 - j" init_state]
  show ?thesis
    by (cases "iterate_body j init_state") simp_all
qed

text \<open>
  Growth: \<open>current\<close> at least doubles every two iterations, since \<open>previous\<close> is never
  negative.
\<close>

lemma iterate_body_growth:
  "iterate_body j init_state = Inr u \<Longrightarrow>
   0 \<le> previous u \<and> previous u \<le> current u \<and> 2 ^ (j div 2) \<le> current u \<and>
   2 ^ (Suc j div 2) \<le> previous u + current u"
proof (induction j arbitrary: u)
  case 0
  then show ?case by (auto simp: init_state_def)
next
  case (Suc j)
  from Suc.prems obtain w where w: "iterate_body j init_state = Inr w" and b: "loop_body w = Inr u"
    by (auto simp: iterate_body_snoc simp del: iterate_body.simps split: sum.splits)
  from Suc.IH [OF w] have ih: "0 \<le> previous w" "previous w \<le> current w"
    "2 ^ (j div 2) \<le> current w" "2 ^ (Suc j div 2) \<le> previous w + current w"
    by simp_all
  from b have p: "previous u = current w" and c: "current u = previous w + current w"
    by (auto simp: loop_body_eq split: if_splits)
  have "(2::int) ^ (Suc (Suc j) div 2) = 2 * 2 ^ (j div 2)"
    by simp
  with ih p c show ?case
    by simp
qed

text \<open>
  Below the overflow the loop leaves at a state that \<open>iterate_body\<close> reaches: for every
  limit from 1 to 1836311902 there is a first iteration count \<open>k\<close>, at most 45, after
  which \<open>current\<close> exceeds the limit.
\<close>

lemma generate_loop_exits_below_overflow:
  assumes "1 \<le> limit" and "limit < 1836311903"
  shows "\<exists>k t. k \<noteq> 0 \<and> iterate_body k init_state = Inr t \<and> limit < current t \<and>
           (\<forall>j<k. \<exists>u. iterate_body j init_state = Inr u \<and> current u \<le> limit) \<and>
           generate_loop limit init_state = Some (Inr t)"
proof -
  define cur where
    "cur j = (case iterate_body j init_state of Inl e \<Rightarrow> 0 | Inr u \<Rightarrow> current u)" for j
  define k where "k = (LEAST j. limit < cur j)"
  have "limit < cur 45"
    using assms(2) by (simp add: cur_def iterate_body_45)
  then have k: "limit < cur k" and k45: "k \<le> 45"
    unfolding k_def by (rule LeastI, rule Least_le)
  have below: "\<not> limit < cur j" if "j < k" for j
    using that unfolding k_def by (rule not_less_Least)
  have st: "\<exists>u. iterate_body j init_state = Inr u \<and> cur j = current u" if "j \<le> k" for j
    using iterate_body_prefix [of j] that k45 by (auto simp: cur_def)
  from st [of k] obtain t where t: "iterate_body k init_state = Inr t" and ct: "cur k = current t"
    by auto
  have visited: "\<forall>j<k. \<exists>u. iterate_body j init_state = Inr u \<and> current u \<le> limit"
  proof (intro allI impI)
    fix j assume "j < k"
    with st [of j] below [of j] show "\<exists>u. iterate_body j init_state = Inr u \<and> current u \<le> limit"
      by auto
  qed
  have run: "generate_loop limit init_state = Some (Inr t)"
    using t k visited unfolding ct by (rule generate_loop_exits)
  have "cur 0 = 1"
    by (simp add: cur_def init_state_def)
  with assms(1) k have "k \<noteq> 0"
    by (cases "k = 0") auto
  with t k ct visited run show ?thesis
    by (intro exI [of _ k] exI [of _ t]) simp
qed

text \<open>
  The wrapping loop agrees with the loop of the standard wherever that one returns a
  state: the two differ only in runs that overflow.
\<close>

lemma wrap_int_in_range:
  "INT_MIN \<le> x \<Longrightarrow> x \<le> INT_MAX \<Longrightarrow> wrap_int x = x"
  by (simp add: wrap_int_def INT_MIN_def INT_MAX_def)

lemma loop_body_wrap_agrees:
  "loop_body s = Inr s' \<Longrightarrow> loop_body_wrap s = Inr s'"
  by (auto simp: loop_body_def loop_body_wrap_def add_int_def wrap_int_in_range Let_def
      split: sum.splits if_splits)

lemma generate_loop_wrap_agrees:
  assumes "generate_loop limit s = Some (Inr t)"
  shows "generate_loop_wrap limit s = Some (Inr t)"
proof -
  have "r = Inr t \<longrightarrow> generate_loop_wrap limit s = Some (Inr t)"
    if "generate_loop limit s = Some r" for r
    using that
  proof (induction limit s r rule: generate_loop.raw_induct [rotated 1, consumes 1])
    case (1 f l u r)
    show ?case
    proof (intro impI)
      assume r: "r = Inr t"
      show "generate_loop_wrap l u = Some (Inr t)"
      proof (cases "current u \<le> l")
        case False
        with 1(2) r have "u = t" by simp
        with False show ?thesis
          by (subst generate_loop_wrap.simps) simp
      next
        case True
        with 1(2) r obtain u' where b: "loop_body u = Inr u'" and f: "f l u' = Some r"
          by (auto split: sum.splits)
        from 1(1) [OF f] r have "generate_loop_wrap l u' = Some (Inr t)" by simp
        with True loop_body_wrap_agrees [OF b] show ?thesis
          by (subst generate_loop_wrap.simps) simp
      qed
    qed
  qed
  with assms show ?thesis by blast
qed

text \<open>
  \<open>current\<close> never decreases, so it stays at most 1836311903 during the first 45
  iterations; with a limit of 1836311903 or more the loop condition holds at all of them,
  and the 46th addition overflows.
\<close>

lemma iterate_body_current_bound:
  assumes "j \<le> 45" and "iterate_body j init_state = Inr u"
  shows "current u \<le> 1836311903"
proof -
  have "\<forall>u. iterate_body (45 - d) init_state = Inr u \<longrightarrow> current u \<le> 1836311903" for d
  proof (induction d)
    case 0
    show ?case by (simp add: iterate_body_45)
  next
    case (Suc d)
    show ?case
    proof (cases "d < 45")
      case False
      then have "45 - Suc d = 45 - d" by simp
      with Suc show ?thesis by simp
    next
      case True
      then have eq: "45 - d = Suc (45 - Suc d)" by simp
      show ?thesis
      proof (intro allI impI)
        fix u assume u: "iterate_body (45 - Suc d) init_state = Inr u"
        from True iterate_body_prefix [of "45 - d"]
        obtain w where w: "iterate_body (45 - d) init_state = Inr w" by auto
        with u eq have b: "loop_body u = Inr w"
          by (simp add: iterate_body_snoc del: iterate_body.simps)
        from iterate_body_growth [OF u] have "0 \<le> previous u" by simp
        with b have "current u \<le> current w"
          by (auto simp: loop_body_eq split: if_splits)
        with Suc w show "current u \<le> 1836311903" by auto
      qed
    qed
  qed
  from this [of "45 - j"] assms show ?thesis by simp
qed

lemma generate_overflows:
  assumes "1836311903 \<le> limit"
  shows "generate limit = Some (Inl Signed_Overflow)"
proof -
  let ?t = "\<lparr>previous = 1134903170, current = 1836311903,
          fibonacci =
            [1, 2, 3, 5, 8, 13, 21, 34, 55, 89, 144, 233, 377, 610, 987, 1597,
             2584, 4181, 6765, 10946, 17711, 28657, 46368, 75025, 121393,
             196418, 317811, 514229, 832040, 1346269, 2178309, 3524578,
             5702887, 9227465, 14930352, 24157817, 39088169, 63245986,
             102334155, 165580141, 267914296, 433494437, 701408733,
             1134903170]\<rparr>"
  have "\<forall>j<45. \<exists>u. iterate_body j init_state = Inr u \<and> current u \<le> limit"
  proof (intro allI impI)
    fix j :: nat assume "j < 45"
    then have j: "j \<le> 45" by simp
    from iterate_body_prefix [OF j] obtain u where u: "iterate_body j init_state = Inr u" ..
    from iterate_body_current_bound [OF j u] assms have "current u \<le> limit" by simp
    with u show "\<exists>u. iterate_body j init_state = Inr u \<and> current u \<le> limit" by blast
  qed
  with iterate_body_45 have "generate_loop limit init_state = generate_loop limit ?t"
    by (rule generate_loop_unroll)
  also have "\<dots> = Some (Inl Signed_Overflow)"
    using assms by (subst generate_loop.simps) (simp add: loop_body_eq INT_MAX_def)
  finally show ?thesis
    by (simp add: generate_def)
qed

text \<open>
  The invariant behind the ordering of the sequence: the vector is strictly increasing
  and bounded by \<open>current\<close>, and neither variable is negative.
\<close>

lemma strictly_sorted_le_last:
  fixes xs :: "int list"
  assumes "sorted_wrt (<) xs" and "x \<in> set xs"
  shows "x \<le> last xs"
proof -
  from assms(2) obtain i where i: "i < length xs" and x: "xs ! i = x"
    by (auto simp: in_set_conv_nth)
  then have ne: "xs \<noteq> []" by auto
  show ?thesis
  proof (cases "i = length xs - 1")
    case True
    with x ne show ?thesis by (simp add: last_conv_nth)
  next
    case False
    with i have "i < length xs - 1" by simp
    with assms(1) have "xs ! i < xs ! (length xs - 1)"
      using ne by (simp add: sorted_wrt_nth_less)
    with x ne show ?thesis by (simp add: last_conv_nth)
  qed
qed

lemma increasing_step:
  assumes inv: "sorted_wrt (<) (fibonacci u) \<and> (\<forall>e\<in>set (fibonacci u). e \<le> current u) \<and>
      0 \<le> previous u \<and> 0 \<le> current u"
    and body: "loop_body u = Inr u'"
  shows "sorted_wrt (<) (fibonacci u') \<and> (\<forall>e\<in>set (fibonacci u'). e \<le> current u') \<and>
      0 \<le> previous u' \<and> 0 \<le> current u'"
proof -
  from body have p: "previous u' = current u" and c: "current u' = previous u + current u"
    and f: "fibonacci u' = (if fibonacci u = [] \<or> last (fibonacci u) \<noteq> current u
                             then fibonacci u @ [current u] else fibonacci u)"
    by (auto simp: loop_body_eq split: if_splits)
  from inv have srt: "sorted_wrt (<) (fibonacci u)"
    and le: "\<forall>e\<in>set (fibonacci u). e \<le> current u"
    and nn: "0 \<le> previous u" "0 \<le> current u"
    by simp_all
  have "sorted_wrt (<) (fibonacci u')"
  proof (cases "fibonacci u = [] \<or> last (fibonacci u) \<noteq> current u")
    case False
    with f srt show ?thesis by simp
  next
    case True
    have "e < current u" if "e \<in> set (fibonacci u)" for e
    proof -
      from that have ne: "fibonacci u \<noteq> []" by auto
      then have "last (fibonacci u) \<in> set (fibonacci u)" by simp
      with le have "last (fibonacci u) \<le> current u" by blast
      with True ne have "last (fibonacci u) < current u" by simp
      with strictly_sorted_le_last [OF srt that] show ?thesis by simp
    qed
    with True f srt show ?thesis
      by (simp add: sorted_wrt_append)
  qed
  moreover from le nn f c have "\<forall>e\<in>set (fibonacci u'). e \<le> current u'"
    by (auto split: if_splits)
  ultimately show ?thesis
    using nn p c by simp
qed

section \<open>Facts about the print loop\<close>

lemma ints_of_append: "ints_of (a @ b) = ints_of a @ ints_of b"
  by (induction a rule: ints_of.induct) simp_all

lemma unat_size_vec: "length v < 2 ^ 64 \<Longrightarrow> unat (size_vec v) = length v"
  by (simp add: size_vec_def unat_of_nat)

text \<open>
  Below \<open>count\<close>, and with \<open>count\<close> at most the size, \<^verbatim>\<open>fibonacci.size() - 1 - i\<close> does not
  wrap around and is an index of the vector.
\<close>

lemma index_in_bounds:
  assumes len: "length v < 2 ^ 64" and i: "i < count" and count: "count \<le> size_vec v"
  shows "unat (size_vec v - 1 - i) = length v - 1 - unat i" and "unat i < length v"
proof -
  from i count have "unat i < unat (size_vec v)"
    by (simp add: word_less_nat_alt word_le_nat_alt)
  with len show lt: "unat i < length v"
    by (simp add: unat_size_vec)
  from i count have "unat (size_vec v - 1 - i) = unat (size_vec v) - 1 - unat i"
    by unat_arith
  with len show "unat (size_vec v - 1 - i) = length v - 1 - unat i"
    by (simp add: unat_size_vec)
qed

lemma print_loop_ints:
  assumes "length v < 2 ^ 64" and "count \<le> size_vec v"
  shows "\<exists>out'. print_loop v count i out = Inr out' \<and>
           ints_of out' = ints_of out @ take (unat count - unat i) (drop (unat i) (rev v))"
  using assms
proof (induction v count i out rule: print_loop.induct)
  case (1 v count i out)
  show ?case
  proof (cases "i < count")
    case False
    then have "unat count - unat i = 0"
      by (simp add: word_less_nat_alt)
    with False show ?thesis
      by (subst print_loop.simps) simp
  next
    case True
    let ?x = "v ! (length v - 1 - unat i)"
    let ?out1 = "out @ [Out_Int ?x]"
    let ?out2 = "if i + 1 < count then ?out1 @ [Out_Str '' ''] else ?out1"
    from index_in_bounds [OF "1.prems"(1) True "1.prems"(2)]
    have idx: "unat (size_vec v - 1 - i) = length v - 1 - unat i" and lt: "unat i < length v"
      by simp_all
    then have sub: "subscript v (size_vec v - 1 - i) = Inr ?x"
      by (simp add: subscript_def)
    from True have suc: "unat (i + 1) = Suc (unat i)" and lt': "unat i < unat count"
      by unat_arith+
    have unf: "print_loop v count i out = print_loop v count (i + 1) ?out2"
      using True sub by (subst print_loop.simps) (simp add: Let_def)
    from "1.IH" [OF True refl sub refl refl "1.prems"]
    obtain out' where run: "print_loop v count (i + 1) ?out2 = Inr out'"
      and ints: "ints_of out' =
        ints_of ?out2 @ take (unat count - unat (i + 1)) (drop (unat (i + 1)) (rev v))"
      by blast
    have "ints_of ?out2 = ints_of out @ [?x]"
      by (simp add: ints_of_append)
    moreover have "rev v ! unat i = ?x"
      using lt by (simp add: rev_nth)
    moreover have "take (unat count - unat i) (drop (unat i) (rev v))
        = rev v ! unat i # take (unat count - Suc (unat i)) (drop (Suc (unat i)) (rev v))"
    proof -
      from lt have "drop (unat i) (rev v) = rev v ! unat i # drop (Suc (unat i)) (rev v)"
        by (simp add: Cons_nth_drop_Suc)
      moreover from lt' have "unat count - unat i = Suc (unat count - Suc (unat i))"
        by simp
      ultimately show ?thesis by simp
    qed
    ultimately have "ints_of out' =
        ints_of out @ take (unat count - unat i) (drop (unat i) (rev v))"
      using ints suc by simp
    with run unf show ?thesis by simp
  qed
qed

lemma formatLastN_ints:
  assumes "length v < 2 ^ 64"
  shows "\<exists>out. formatLastN v n = Inr out \<and> ints_of out = take (unat n) (rev v)"
proof -
  let ?count = "min n (size_vec v)"
  have c: "?count \<le> size_vec v" by simp
  from print_loop_ints [OF assms c, of 0 "[]"]
  obtain out where run: "print_loop v ?count 0 [] = Inr out"
    and ints: "ints_of out = take (unat ?count) (rev v)"
    by auto
  have "unat ?count = min (unat n) (length v)"
    using assms by (simp add: min_def word_le_nat_alt unat_size_vec)
  with ints have "ints_of out = take (unat n) (rev v)"
    by (simp add: min_def)
  with run show ?thesis
    by (simp add: formatLastN_def Let_def)
qed

section \<open>The claims\<close>

text \<open>
  Claim C1. Running the program writes exactly one line to standard output: the string
  \<^verbatim>\<open>987 610 377 233 144 89 55 34 21 13 8 5 3 2 1\<close> followed by a newline, with single
  spaces between the numbers and nothing after the last number but the newline. The
  program ends with exit status 0.
\<close>

theorem main_output:
  "main = Some (Inr ([Out_Int 987, Out_Str '' '', Out_Int 610, Out_Str '' '', Out_Int 377,
       Out_Str '' '', Out_Int 233, Out_Str '' '', Out_Int 144, Out_Str '' '', Out_Int 89,
       Out_Str '' '', Out_Int 55, Out_Str '' '', Out_Int 34, Out_Str '' '', Out_Int 21,
       Out_Str '' '', Out_Int 13, Out_Str '' '', Out_Int 8, Out_Str '' '', Out_Int 5,
       Out_Str '' '', Out_Int 3, Out_Str '' '', Out_Int 2, Out_Str '' '', Out_Int 1, Endl], 0))
   \<and> render [Out_Int 987, Out_Str '' '', Out_Int 610, Out_Str '' '', Out_Int 377,
       Out_Str '' '', Out_Int 233, Out_Str '' '', Out_Int 144, Out_Str '' '', Out_Int 89,
       Out_Str '' '', Out_Int 55, Out_Str '' '', Out_Int 34, Out_Str '' '', Out_Int 21,
       Out_Str '' '', Out_Int 13, Out_Str '' '', Out_Int 8, Out_Str '' '', Out_Int 5,
       Out_Str '' '', Out_Int 3, Out_Str '' '', Out_Int 2, Out_Str '' '', Out_Int 1, Endl]
     = ''987 610 377 233 144 89 55 34 21 13 8 5 3 2 1'' @ [CHR 0x0A]"
  by code_simp

text \<open>
  Claim C2, as the specification states it: after the generation loop with limit 1000 the
  stored sequence is 1 2 3 5 8 13 21 34 55 89 144 233 377 610 987, "14 elements". The
  sequence is the one the loop stores, but it has 15 elements, not 14.
\<close>

theorem generate_1000_length_counterexample:
  "generate 1000 = Some (Inr [1, 2, 3, 5, 8, 13, 21, 34, 55, 89, 144, 233, 377, 610, 987])
   \<and> length ([1, 2, 3, 5, 8, 13, 21, 34, 55, 89, 144, 233, 377, 610, 987] :: int list) \<noteq> 14"
  using generate_1000 by simp

text \<open>
  Claim C2, amended: after the generation loop with limit 1000 the stored sequence is
  exactly 1 2 3 5 8 13 21 34 55 89 144 233 377 610 987, which are 15 elements. The loop
  runs 16 iterations (its condition holds at the states after 0 to 15 executions of the
  body and fails after the 16th), and the guard before \<^verbatim>\<open>push_back\<close> is false in exactly
  one of them, the second (index 1), where the vector is \<open>[1]\<close> and \<open>current\<close> is the
  second 1 of the Fibonacci sequence.
\<close>

theorem generate_1000_sequence:
  "generate 1000 = Some (Inr [1, 2, 3, 5, 8, 13, 21, 34, 55, 89, 144, 233, 377, 610, 987])
   \<and> length ([1, 2, 3, 5, 8, 13, 21, 34, 55, 89, 144, 233, 377, 610, 987] :: int list) = 15
   \<and> (\<forall>j<16. \<exists>s. iterate_body j init_state = Inr s \<and> current s \<le> 1000 \<and>
                   push_guard s = Inr (j \<noteq> 1))
   \<and> iterate_body 1 init_state = Inr \<lparr>previous = 1, current = 1, fibonacci = [1]\<rparr>
   \<and> (\<exists>s. iterate_body 16 init_state = Inr s \<and> 1000 < current s)"
proof -
  have guards: "list_all (\<lambda>j. case iterate_body j init_state of
        Inl e \<Rightarrow> False
      | Inr s \<Rightarrow> current s \<le> 1000 \<and> push_guard s = Inr (j \<noteq> 1)) [0..<16]"
    by code_simp
  have "\<exists>s. iterate_body j init_state = Inr s \<and> current s \<le> 1000 \<and>
      push_guard s = Inr (j \<noteq> 1)" if "j < 16" for j
  proof -
    from that have "j \<in> set [0..<16]" by simp
    with guards show ?thesis
      unfolding list_all_iff by (fastforce split: sum.splits)
  qed
  moreover have "iterate_body 1 init_state = Inr \<lparr>previous = 1, current = 1, fibonacci = [1]\<rparr>"
    by code_simp
  moreover have "iterate_body 16 init_state = Inr \<lparr>previous = 987, current = 1597,
      fibonacci = [1, 2, 3, 5, 8, 13, 21, 34, 55, 89, 144, 233, 377, 610, 987]\<rparr>"
    by code_simp
  ultimately show ?thesis
    using generate_1000 by simp
qed

text \<open>The second iteration is the one whose guard is false.\<close>

theorem generate_1000_sequence_witness:
  "(1::nat) < 16 \<and> (\<exists>s. iterate_body 1 init_state = Inr s \<and> current s \<le> 1000 \<and>
      push_guard s = Inr False)"
proof -
  from generate_1000_sequence
  have "\<forall>j<16. \<exists>s. iterate_body j init_state = Inr s \<and> current s \<le> 1000 \<and>
      push_guard s = Inr (j \<noteq> 1)"
    by blast
  then have "(1::nat) < 16 \<longrightarrow> (\<exists>s. iterate_body 1 init_state = Inr s \<and> current s \<le> 1000 \<and>
      push_guard s = Inr (1 \<noteq> (1::nat)))"
    by blast
  then show ?thesis by simp
qed

text \<open>
  Claim C3. Every element of the sequence that the generation loop produces is at most
  the limit. This holds for every limit, so for every limit that is at least 1; a run in
  which the addition overflows produces no sequence.
\<close>

theorem generate_bounded:
  assumes "generate limit = Some (Inr xs)" and "e \<in> set xs"
  shows "e \<le> limit"
proof -
  from assms(1) obtain t where run: "generate_loop limit init_state = Some (Inr t)"
    and xs: "fibonacci t = xs"
    by (auto dest: generate_Inr)
  have "(\<forall>x\<in>set (fibonacci t). x \<le> limit) \<and> limit < current t"
    using run
  proof (rule generate_loop_invariant)
    show "\<forall>x\<in>set (fibonacci init_state). x \<le> limit"
      by (simp add: init_state_def)
  next
    fix u u'
    assume "\<forall>x\<in>set (fibonacci u). x \<le> limit" "current u \<le> limit" "loop_body u = Inr u'"
    then show "\<forall>x\<in>set (fibonacci u'). x \<le> limit"
      by (auto simp: loop_body_eq split: if_splits)
  qed
  with xs assms(2) show ?thesis by blast
qed

theorem generate_bounded_witness:
  "generate 1000 = Some (Inr [1, 2, 3, 5, 8, 13, 21, 34, 55, 89, 144, 233, 377, 610, 987])
   \<and> (987::int) \<in> set [1, 2, 3, 5, 8, 13, 21, 34, 55, 89, 144, 233, 377, 610, 987]
   \<and> (987::int) \<le> 1000"
  using generate_bounded [of 1000 "[1, 2, 3, 5, 8, 13, 21, 34, 55, 89, 144, 233, 377, 610, 987]" 987]
    generate_1000
  by simp

text \<open>
  Claim C4. No two adjacent elements of the generated sequence are equal, for every limit
  (so for every limit that is at least 1).
\<close>

theorem generate_no_adjacent_duplicates:
  assumes "generate limit = Some (Inr xs)" and "i + 1 < length xs"
  shows "xs ! i \<noteq> xs ! (i + 1)"
proof -
  from assms(1) obtain t where run: "generate_loop limit init_state = Some (Inr t)"
    and xs: "fibonacci t = xs"
    by (auto dest: generate_Inr)
  have "distinct_adj (fibonacci t) \<and> limit < current t"
    using run
  proof (rule generate_loop_invariant)
    show "distinct_adj (fibonacci init_state)"
      by (simp add: init_state_def)
  next
    fix u u'
    assume "distinct_adj (fibonacci u)" "current u \<le> limit" "loop_body u = Inr u'"
    then show "distinct_adj (fibonacci u')"
      by (auto simp: loop_body_eq distinct_adj_append_iff split: if_splits)
  qed
  with xs assms(2) show ?thesis
    by (simp add: distinct_adj_conv_nth)
qed

theorem generate_no_adjacent_duplicates_witness:
  "generate 1000 = Some (Inr [1, 2, 3, 5, 8, 13, 21, 34, 55, 89, 144, 233, 377, 610, 987])
   \<and> 0 + 1 < length ([1, 2, 3, 5, 8, 13, 21, 34, 55, 89, 144, 233, 377, 610, 987] :: int list)
   \<and> ([1, 2, 3, 5, 8, 13, 21, 34, 55, 89, 144, 233, 377, 610, 987] :: int list) ! 0 \<noteq> [1, 2, 3, 5, 8, 13, 21, 34, 55, 89, 144, 233, 377, 610, 987] ! (0 + 1)"
  using generate_no_adjacent_duplicates [of 1000 "[1, 2, 3, 5, 8, 13, 21, 34, 55, 89, 144, 233, 377, 610, 987]" 0]
    generate_1000
  by simp

text \<open>
  Claim C5, as the specification states it: for every limit that is at least 1 the
  generated sequence is strictly increasing after its first element. With a 32-bit
  \<^verbatim>\<open>int\<close> this fails at the limit 1836311903. By the C++ standard the run is undefined
  there, since the 46th addition overflows before the loop is left, so that no sequence is
  generated. A build that keeps the low 32 bits of the sum stores 53 elements, and the
  element at index 44, 1836311903, is followed by - 1323752223.
\<close>

theorem generate_not_increasing_counterexample:
  "(1::int) \<le> 1836311903
   \<and> generate 1836311903 = Some (Inl Signed_Overflow)
   \<and> generate_wrap 1836311903 = Some (Inr [1, 2, 3, 5, 8, 13, 21, 34, 55, 89, 144, 233, 377, 610, 987, 1597, 2584, 4181, 6765,
        10946, 17711, 28657, 46368, 75025, 121393, 196418, 317811, 514229, 832040, 1346269,
        2178309, 3524578, 5702887, 9227465, 14930352, 24157817, 39088169, 63245986,
        102334155, 165580141, 267914296, 433494437, 701408733, 1134903170, 1836311903,
        - 1323752223, 512559680, - 811192543, - 298632863, - 1109825406, - 1408458269,
        1776683621, 368225352])
   \<and> (1::nat) \<le> 44 \<and> 44 + 1 < length ([1, 2, 3, 5, 8, 13, 21, 34, 55, 89, 144, 233, 377, 610, 987, 1597, 2584, 4181, 6765,
        10946, 17711, 28657, 46368, 75025, 121393, 196418, 317811, 514229, 832040, 1346269,
        2178309, 3524578, 5702887, 9227465, 14930352, 24157817, 39088169, 63245986,
        102334155, 165580141, 267914296, 433494437, 701408733, 1134903170, 1836311903,
        - 1323752223, 512559680, - 811192543, - 298632863, - 1109825406, - 1408458269,
        1776683621, 368225352] :: int list)
   \<and> \<not> ([1, 2, 3, 5, 8, 13, 21, 34, 55, 89, 144, 233, 377, 610, 987, 1597, 2584, 4181, 6765,
        10946, 17711, 28657, 46368, 75025, 121393, 196418, 317811, 514229, 832040, 1346269,
        2178309, 3524578, 5702887, 9227465, 14930352, 24157817, 39088169, 63245986,
        102334155, 165580141, 267914296, 433494437, 701408733, 1134903170, 1836311903,
        - 1323752223, 512559680, - 811192543, - 298632863, - 1109825406, - 1408458269,
        1776683621, 368225352] :: int list) ! 44
       < [1, 2, 3, 5, 8, 13, 21, 34, 55, 89, 144, 233, 377, 610, 987, 1597, 2584, 4181, 6765,
        10946, 17711, 28657, 46368, 75025, 121393, 196418, 317811, 514229, 832040, 1346269,
        2178309, 3524578, 5702887, 9227465, 14930352, 24157817, 39088169, 63245986,
        102334155, 165580141, 267914296, 433494437, 701408733, 1134903170, 1836311903,
        - 1323752223, 512559680, - 811192543, - 298632863, - 1109825406, - 1408458269,
        1776683621, 368225352] ! (44 + 1)"
proof -
  have "generate 1836311903 = Some (Inl Signed_Overflow)"
    by code_simp
  moreover have "generate_wrap 1836311903 = Some (Inr [1, 2, 3, 5, 8, 13, 21, 34, 55, 89, 144, 233, 377, 610, 987, 1597, 2584, 4181, 6765,
        10946, 17711, 28657, 46368, 75025, 121393, 196418, 317811, 514229, 832040, 1346269,
        2178309, 3524578, 5702887, 9227465, 14930352, 24157817, 39088169, 63245986,
        102334155, 165580141, 267914296, 433494437, 701408733, 1134903170, 1836311903,
        - 1323752223, 512559680, - 811192543, - 298632863, - 1109825406, - 1408458269,
        1776683621, 368225352])"
    by code_simp
  ultimately show ?thesis
    by simp
qed

text \<open>
  Claim C5, amended: for every limit from 1 to 1836311902 the generation loop produces a
  sequence, and this sequence is strictly increasing after its first element: every
  element from index 1 on is less than its successor. The theorem shows more:
  \<open>xs ! i < xs ! (i + 1)\<close> at every index \<open>i\<close>, the first one included.
\<close>

theorem generate_strictly_increasing:
  assumes "1 \<le> limit" and "limit < 1836311903"
  shows "\<exists>xs. generate limit = Some (Inr xs) \<and>
           (\<forall>i. i + 1 < length xs \<longrightarrow> xs ! i < xs ! (i + 1))"
proof -
  from generate_loop_exits_below_overflow [OF assms]
  obtain t where run: "generate_loop limit init_state = Some (Inr t)"
    by blast
  then have gen: "generate limit = Some (Inr (fibonacci t))"
    by (simp add: generate_def)
  let ?I = "\<lambda>u. sorted_wrt (<) (fibonacci u) \<and> (\<forall>e\<in>set (fibonacci u). e \<le> current u) \<and>
      0 \<le> previous u \<and> 0 \<le> current u"
  have "?I t \<and> limit < current t"
    using run
  proof (rule generate_loop_invariant)
    show "?I init_state"
      by (simp add: init_state_def)
  next
    fix u u'
    assume "?I u" "current u \<le> limit" "loop_body u = Inr u'"
    then show "?I u'"
      using increasing_step [of u u'] by blast
  qed
  then have "sorted_wrt (<) (fibonacci t)"
    by simp
  then have "\<forall>i. i + 1 < length (fibonacci t) \<longrightarrow> fibonacci t ! i < fibonacci t ! (i + 1)"
    by (simp add: sorted_wrt_nth_less)
  with gen show ?thesis
    by blast
qed

theorem generate_strictly_increasing_witness:
  "(1::int) \<le> 1000 \<and> (1000::int) < 1836311903
   \<and> generate 1000 = Some (Inr [1, 2, 3, 5, 8, 13, 21, 34, 55, 89, 144, 233, 377, 610, 987])
   \<and> 1 + 1 < length ([1, 2, 3, 5, 8, 13, 21, 34, 55, 89, 144, 233, 377, 610, 987] :: int list)
   \<and> ([1, 2, 3, 5, 8, 13, 21, 34, 55, 89, 144, 233, 377, 610, 987] :: int list) ! 1 < [1, 2, 3, 5, 8, 13, 21, 34, 55, 89, 144, 233, 377, 610, 987] ! (1 + 1)"
proof -
  from generate_strictly_increasing [of 1000]
  obtain xs where xs: "generate 1000 = Some (Inr xs)"
    and inc: "\<forall>i. i + 1 < length xs \<longrightarrow> xs ! i < xs ! (i + 1)"
    by auto
  from xs generate_1000 have "xs = [1, 2, 3, 5, 8, 13, 21, 34, 55, 89, 144, 233, 377, 610, 987]"
    by simp
  with inc have "1 + 1 < length ([1, 2, 3, 5, 8, 13, 21, 34, 55, 89, 144, 233, 377, 610, 987] :: int list)
      \<longrightarrow> ([1, 2, 3, 5, 8, 13, 21, 34, 55, 89, 144, 233, 377, 610, 987] :: int list) ! 1 < [1, 2, 3, 5, 8, 13, 21, 34, 55, 89, 144, 233, 377, 610, 987] ! (1 + 1)"
    by blast
  with generate_1000 show ?thesis
    by simp
qed



text \<open>
  Claim C7, as the specification states it: for every limit that is at least 1 the
  generation loop terminates, leaving the loop once \<open>current\<close> exceeds the limit. With a
  32-bit \<^verbatim>\<open>int\<close> this fails from the limit 1836311903 on, the largest Fibonacci number
  below \<open>2 ^ 31\<close>: \<open>current\<close> reaches 1836311903, which does not exceed the limit, and
  the next addition, 1134903170 + 1836311903 = 2971215073, overflows (for every larger
  limit as well, by \<open>generate_overflows\<close>).
\<close>

theorem generate_overflow_counterexample:
  "(1::int) \<le> 1836311903 \<and> (1836311903::int) \<le> INT_MAX \<and>
   generate 1836311903 = Some (Inl Signed_Overflow)"
proof -
  have "generate 1836311903 = Some (Inl Signed_Overflow)"
    by code_simp
  then show ?thesis
    by (simp add: INT_MAX_def)
qed

text \<open>
  Claim C7, amended: for every limit from 1 to 1836311902 the generation loop terminates
  without overflow after \<open>k\<close> iterations, where \<open>k\<close> is at most twice the number of
  binary digits of the limit, \<open>2 * (\<lfloor>log\<^sub>2 limit\<rfloor> + 1)\<close>: the loop condition holds at the
  states after \<open>0, ..., k - 1\<close> executions of the body and fails after the \<open>k\<close>-th, where
  \<open>current\<close> exceeds the limit.
\<close>

theorem generate_terminates:
  assumes "1 \<le> limit" and "limit < 1836311903"
  shows "\<exists>k t. k \<le> 2 * floorlog 2 (nat limit) \<and>
           iterate_body k init_state = Inr t \<and> limit < current t \<and>
           (\<forall>j<k. \<exists>u. iterate_body j init_state = Inr u \<and> current u \<le> limit) \<and>
           generate_loop limit init_state = Some (Inr t) \<and>
           generate limit = Some (Inr (fibonacci t))"
proof -
  from generate_loop_exits_below_overflow [OF assms]
  obtain k t where "k \<noteq> 0" and t: "iterate_body k init_state = Inr t" and k: "limit < current t"
    and visited: "\<forall>j<k. \<exists>u. iterate_body j init_state = Inr u \<and> current u \<le> limit"
    and run: "generate_loop limit init_state = Some (Inr t)"
    by blast
  from \<open>k \<noteq> 0\<close> have "k - 1 < k" by simp
  with visited obtain u where u: "iterate_body (k - 1) init_state = Inr u"
    and cu: "current u \<le> limit"
    by blast
  from iterate_body_growth [OF u] cu have "(2::int) ^ ((k - 1) div 2) \<le> limit"
    by simp
  with assms(1) have "(2::nat) ^ ((k - 1) div 2) \<le> nat limit"
    by (simp add: le_nat_iff)
  then have "Suc ((k - 1) div 2) \<le> floorlog 2 (nat limit)"
    by (rule floorlog_ge_SucI) simp
  with \<open>k \<noteq> 0\<close> have bound: "k \<le> 2 * floorlog 2 (nat limit)"
    by presburger
  from run have "generate limit = Some (Inr (fibonacci t))"
    by (simp add: generate_def)
  with bound t k visited run show ?thesis
    by (intro exI [of _ k] exI [of _ t]) simp
qed

theorem generate_terminates_witness:
  "(1::int) \<le> 1000 \<and> (1000::int) < 1836311903 \<and>
   (\<exists>k t. k \<le> 2 * floorlog 2 (nat 1000) \<and>
           iterate_body k init_state = Inr t \<and> 1000 < current t \<and>
           (\<forall>j<k. \<exists>u. iterate_body j init_state = Inr u \<and> current u \<le> 1000) \<and>
           generate_loop 1000 init_state = Some (Inr t) \<and>
           generate 1000 = Some (Inr (fibonacci t)))"
  using generate_terminates [of 1000] by simp

text \<open>
  Claim C8. With limit 1 the generation loop yields the one-element sequence \<open>[1]\<close>, and
  the print loop on \<open>[1]\<close> with \<open>n = 15\<close> writes the string \<^verbatim>\<open>1\<close>.
\<close>

theorem generate_1_formatLastN:
  "generate 1 = Some (Inr [1]) \<and> formatLastN [1] 15 = Inr [Out_Int 1] \<and>
   render [Out_Int 1] = ''1''"
  by code_simp

text \<open>
  Claim C9. With the limit 1000 no addition of the generation loop overflows. The loop
  runs exactly 16 iterations; at every state it visits, \<open>previous\<close> lies between 0 and 987
  and \<open>current\<close> between 1 and 1597, and each of the 16 sums \<open>previous + current\<close> that
  the body computes is at most 1597, so that \<open>add_int\<close> returns it. All these values lie
  between \<open>INT_MIN\<close> and \<open>INT_MAX\<close>.
\<close>

theorem generation_no_overflow:
  "generate_loop 1000 init_state = Some (iterate_body 16 init_state)
   \<and> (\<exists>s. iterate_body 16 init_state = Inr s \<and> 1000 < current s)
   \<and> (\<forall>j\<le>16. \<exists>s. iterate_body j init_state = Inr s \<and>
          0 \<le> previous s \<and> previous s \<le> 987 \<and> 1 \<le> current s \<and> current s \<le> 1597 \<and>
          (j < 16 \<longrightarrow> current s \<le> 1000 \<and> previous s + current s \<le> 1597 \<and>
             add_int (previous s) (current s) = Inr (previous s + current s)))
   \<and> INT_MIN \<le> 0 \<and> 1597 \<le> INT_MAX"
proof -
  have vals: "list_all (\<lambda>j. case iterate_body j init_state of
        Inl e \<Rightarrow> False
      | Inr s \<Rightarrow> 0 \<le> previous s \<and> previous s \<le> 987 \<and> 1 \<le> current s \<and> current s \<le> 1597 \<and>
          (j < 16 \<longrightarrow> current s \<le> 1000 \<and> previous s + current s \<le> 1597 \<and>
             add_int (previous s) (current s) = Inr (previous s + current s))) [0..<17]"
    by code_simp
  have "\<exists>s. iterate_body j init_state = Inr s \<and>
          0 \<le> previous s \<and> previous s \<le> 987 \<and> 1 \<le> current s \<and> current s \<le> 1597 \<and>
          (j < 16 \<longrightarrow> current s \<le> 1000 \<and> previous s + current s \<le> 1597 \<and>
             add_int (previous s) (current s) = Inr (previous s + current s))"
    if "j \<le> 16" for j
  proof -
    from that have "j \<in> set [0..<17]" by simp
    with vals show ?thesis
      unfolding list_all_iff by (fastforce split: sum.splits)
  qed
  moreover have "generate_loop 1000 init_state = Some (iterate_body 16 init_state)"
    by code_simp
  moreover have "\<exists>s. iterate_body 16 init_state = Inr s \<and> 1000 < current s"
  proof -
    have "iterate_body 16 init_state = Inr \<lparr>previous = 987, current = 1597,
        fibonacci = [1, 2, 3, 5, 8, 13, 21, 34, 55, 89, 144, 233, 377, 610, 987]\<rparr>"
      by code_simp
    then show ?thesis by simp
  qed
  moreover have "INT_MIN \<le> 0 \<and> 1597 \<le> INT_MAX"
    by (simp add: INT_MIN_def INT_MAX_def)
  ultimately show ?thesis
    by blast
qed

theorem generation_no_overflow_witness:
  "(15::nat) \<le> 16 \<and> (15::nat) < 16 \<and>
   (\<exists>s. iterate_body 15 init_state = Inr s \<and> current s \<le> 1000 \<and>
        previous s + current s \<le> 1597 \<and>
        add_int (previous s) (current s) = Inr (previous s + current s))"
proof -
  from generation_no_overflow
  have "\<forall>j\<le>16. \<exists>s. iterate_body j init_state = Inr s \<and>
          0 \<le> previous s \<and> previous s \<le> 987 \<and> 1 \<le> current s \<and> current s \<le> 1597 \<and>
          (j < 16 \<longrightarrow> current s \<le> 1000 \<and> previous s + current s \<le> 1597 \<and>
             add_int (previous s) (current s) = Inr (previous s + current s))"
    by blast
  then have "(15::nat) \<le> 16 \<longrightarrow> (\<exists>s. iterate_body 15 init_state = Inr s \<and>
          0 \<le> previous s \<and> previous s \<le> 987 \<and> 1 \<le> current s \<and> current s \<le> 1597 \<and>
          ((15::nat) < 16 \<longrightarrow> current s \<le> 1000 \<and> previous s + current s \<le> 1597 \<and>
             add_int (previous s) (current s) = Inr (previous s + current s)))"
    by blast
  then show ?thesis
    by auto
qed

text \<open>
  Claim C10. Every container access is in bounds. The guard never reads the back of an
  empty vector, whatever the state, and the generation loop never ends in an
  out-of-bounds access, whatever the limit and the state it starts from. In the print
  loop, for every vector whose size fits \<^verbatim>\<open>std::size_t\<close>, every \<open>n\<close> and every \<open>i\<close> below
  \<open>count = min n (size_vec v)\<close>, the index \<^verbatim>\<open>fibonacci.size() - 1 - i\<close> is less than the
  size, so the read succeeds and the loop ends without an error.
\<close>

theorem container_accesses_in_bounds:
  "(\<exists>g. push_guard s = Inr g)
   \<and> generate_loop limit s \<noteq> Some (Inl Out_Of_Bounds)
   \<and> (length v < 2 ^ 64 \<longrightarrow>
        (\<forall>i. i < min n (size_vec v) \<longrightarrow>
           unat (size_vec v - 1 - i) < length v \<and>
           (\<exists>x. subscript v (size_vec v - 1 - i) = Inr x))
        \<and> (\<exists>out. formatLastN v n = Inr out))"
proof -
  have "\<exists>g. push_guard s = Inr g"
    by (auto simp: push_guard_def empty_vec_def back_vec_def)
  moreover have "generate_loop limit s \<noteq> Some (Inl Out_Of_Bounds)"
  proof
    assume "generate_loop limit s = Some (Inl Out_Of_Bounds)"
    from generate_loop_result [OF this, of "\<lambda>u. True"] show False
      by simp
  qed
  moreover have "unat (size_vec v - 1 - i) < length v \<and>
      (\<exists>x. subscript v (size_vec v - 1 - i) = Inr x)"
    if len: "length v < 2 ^ 64" and i: "i < min n (size_vec v)" for i
  proof -
    have "min n (size_vec v) \<le> size_vec v" by simp
    from index_in_bounds [OF len i this]
    have "unat (size_vec v - 1 - i) < length v" by simp
    then show ?thesis
      by (simp add: subscript_def)
  qed
  moreover have "\<exists>out. formatLastN v n = Inr out" if "length v < 2 ^ 64"
    using formatLastN_ints [OF that, of n] by blast
  ultimately show ?thesis
    by blast
qed

theorem container_accesses_in_bounds_witness:
  "length [1, 2, 3 :: int] < 2 ^ 64 \<and> (2 :: size_t) < min 15 (size_vec [1, 2, 3]) \<and>
   unat (size_vec [1, 2, 3] - 1 - 2) < length [1, 2, 3 :: int] \<and>
   (\<exists>x. subscript [1, 2, 3] (size_vec [1, 2, 3] - 1 - 2) = Inr x)"
proof -
  have len: "length [1, 2, 3 :: int] < 2 ^ 64" by simp
  have i: "(2 :: size_t) < min 15 (size_vec [1, 2, 3])" by (simp add: size_vec_def)
  from container_accesses_in_bounds [of _ _ "[1, 2, 3]" 15] len
  have "\<forall>i. i < min 15 (size_vec [1, 2, 3]) \<longrightarrow>
           unat (size_vec [1, 2, 3] - 1 - i) < length [1, 2, 3 :: int] \<and>
           (\<exists>x. subscript [1, 2, 3] (size_vec [1, 2, 3] - 1 - i) = Inr x)"
    by blast
  with i have "unat (size_vec [1, 2, 3] - 1 - 2) < length [1, 2, 3 :: int] \<and>
           (\<exists>x. subscript [1, 2, 3] (size_vec [1, 2, 3] - 1 - 2) = Inr x)"
    by blast
  with len i show ?thesis by blast
qed

end
